theory Spec2Isabelle
  imports Main "HOL-Library.Word" "HOL-Library.Signed_Division" "HOL-Library.Multiset"
    "HOL-Library.Sublist"
begin

unbundle bit_operations_syntax

section \<open>Go values\<close>

text \<open>
  The embedding follows \<^verbatim>\<open>pkg/bsdiff/bsdiff.go\<close> (the diff generator) and the
  \<^verbatim>\<open>bspatch\<close> and \<^verbatim>\<open>util\<close> packages (the patch applier and its in-memory sink).
  A Go \<^verbatim>\<open>byte\<close> is an 8-bit word. A Go \<^verbatim>\<open>int\<close> is taken to be 64 bits wide (the
  platforms the format targets); it is modelled as an \<open>int\<close>, and \<open>w64\<close> is written
  wherever a result can leave the 64-bit range: the integer codec and the cursor
  arithmetic of the applier, whose operands come from the patch. A run-time panic
  (index or slice bound out of range) is the error value \<open>Panic\<close>; the other error
  values are the \<^verbatim>\<open>fmt.Errorf\<close> returns of \<^verbatim>\<open>patchb\<close>, in source order.
\<close>

type_synonym byte = "8 word"

datatype error =
    Panic
  | CorruptHeader
  | CorruptMagic
  | CorruptLengths
  | CorruptCtrlStream
  | CorruptSanityDiff
  | CorruptDiffStream
  | CorruptSanityExtra
  | CorruptExtraStream

definition w64 :: "int \<Rightarrow> int" where
  "w64 k = signed_take_bit 63 k"

definition is_int64 :: "int \<Rightarrow> bool" where
  "is_int64 k \<longleftrightarrow> - (2 ^ 63) \<le> k \<and> k < 2 ^ 63"

section \<open>The integer codec: offtout and offtin\<close>

text \<open>
  \<^verbatim>\<open>offtout(x, buf)\<close> writes eight bytes into \<^verbatim>\<open>buf[0..7]\<close>. Go's \<^verbatim>\<open>%\<close> and \<^verbatim>\<open>/\<close>
  truncate towards zero (\<open>smod\<close>, \<open>sdiv\<close>), \<^verbatim>\<open>-x\<close> wraps, and \<^verbatim>\<open>byte(y)\<close> keeps the low
  eight bits. \<open>offt_step\<close> is one group of three source lines:
  \<^verbatim>\<open>buf[k] = byte(y % 256); y -= int(buf[k]); y = y / 256\<close>.
\<close>

definition offt_step :: "int \<Rightarrow> byte \<times> int" where
  "offt_step y = (let b = (word_of_int (y smod 256) :: byte)
                  in (b, w64 (y - uint b) sdiv 256))"

definition offtout_bytes :: "int \<Rightarrow> byte list" where
  "offtout_bytes x =
     (let y = (if x < 0 then w64 (- x) else x);
          (b0, y) = offt_step y;
          (b1, y) = offt_step y;
          (b2, y) = offt_step y;
          (b3, y) = offt_step y;
          (b4, y) = offt_step y;
          (b5, y) = offt_step y;
          (b6, y) = offt_step y;
          b7 = (word_of_int (y smod 256) :: byte);
          b7 = (if x < 0 then b7 OR 0x80 else b7)
      in [b0, b1, b2, b3, b4, b5, b6, b7])"

text \<open>The slice \<^verbatim>\<open>buf\<close> is updated in place; a slice shorter than 8 panics.\<close>

definition offtout :: "int \<Rightarrow> byte list \<Rightarrow> error + byte list" where
  "offtout x buf =
     (if length buf < 8 then Inl Panic else Inr (offtout_bytes x @ drop 8 buf))"

text \<open>
  \<^verbatim>\<open>offtin(buf)\<close> reads \<^verbatim>\<open>buf[7]\<close> first, so a slice shorter than 8 panics. The
  magnitude is below \<open>2 ^ 63\<close>, so nothing wraps.
\<close>

definition offtin :: "byte list \<Rightarrow> error + int" where
  "offtin buf =
     (if length buf < 8 then Inl Panic
      else
        let y = uint (buf ! 7 AND 0x7f);
            y = y * 256; y = y + uint (buf ! 6);
            y = y * 256; y = y + uint (buf ! 5);
            y = y * 256; y = y + uint (buf ! 4);
            y = y * 256; y = y + uint (buf ! 3);
            y = y * 256; y = y + uint (buf ! 2);
            y = y * 256; y = y + uint (buf ! 1);
            y = y * 256; y = y + uint (buf ! 0)
        in Inr (if buf ! 7 AND 0x80 \<noteq> 0 then - y else y))"

section \<open>Slices\<close>

text \<open>
  Indexing and slicing panic out of range. \<open>idx xs i\<close> is \<^verbatim>\<open>xs[i]\<close>,
  \<open>slice_from xs i\<close> is \<^verbatim>\<open>xs[i:]\<close>, \<open>slice_to xs j\<close> is \<^verbatim>\<open>xs[:j]\<close> and
  \<open>slice xs i j\<close> is \<^verbatim>\<open>xs[i:j]\<close>. Every slice the program cuts has its capacity
  equal to its length, so the upper bound is the length.
\<close>

definition idx :: "'a list \<Rightarrow> int \<Rightarrow> error + 'a" where
  "idx xs i = (if 0 \<le> i \<and> i < int (length xs) then Inr (xs ! nat i) else Inl Panic)"

definition slice_from :: "'a list \<Rightarrow> int \<Rightarrow> error + 'a list" where
  "slice_from xs i =
     (if 0 \<le> i \<and> i \<le> int (length xs) then Inr (drop (nat i) xs) else Inl Panic)"

definition slice_to :: "'a list \<Rightarrow> int \<Rightarrow> error + 'a list" where
  "slice_to xs j =
     (if 0 \<le> j \<and> j \<le> int (length xs) then Inr (take (nat j) xs) else Inl Panic)"

definition slice :: "'a list \<Rightarrow> int \<Rightarrow> int \<Rightarrow> error + 'a list" where
  "slice xs i j =
     (if 0 \<le> i \<and> i \<le> j \<and> j \<le> int (length xs)
      then Inr (take (nat (j - i)) (drop (nat i) xs)) else Inl Panic)"

text \<open>\<open>upd xs i v\<close> is the assignment \<^verbatim>\<open>xs[i] = v\<close>.\<close>

definition upd :: "'a list \<Rightarrow> int \<Rightarrow> 'a \<Rightarrow> error + 'a list" where
  "upd xs i v = (if 0 \<le> i \<and> i < int (length xs) then Inr (xs[nat i := v]) else Inl Panic)"

section \<open>The longest-prefix searcher\<close>

text \<open>\<^verbatim>\<open>matchlen\<close>: the loop counter \<open>i\<close> starts at 0 and only grows.\<close>

function matchlen_loop :: "byte list \<Rightarrow> byte list \<Rightarrow> nat \<Rightarrow> nat" where
  "matchlen_loop oldbin newbin i =
     (if i < length oldbin \<and> i < length newbin
      then (if oldbin ! i \<noteq> newbin ! i then i else matchlen_loop oldbin newbin (i + 1))
      else i)"
  by pat_completeness auto
termination
  by (relation "measure (\<lambda>(oldbin, newbin, i). length oldbin - i)") auto

declare matchlen_loop.simps [simp del]

definition matchlen :: "byte list \<Rightarrow> byte list \<Rightarrow> int" where
  "matchlen oldbin newbin = int (matchlen_loop oldbin newbin 0)"

text \<open>
  \<^verbatim>\<open>bytes.Compare\<close> of the Go library: lexicographic order of unsigned bytes, a proper
  prefix being smaller; the result is -1, 0 or 1.
\<close>

fun bytes_compare :: "byte list \<Rightarrow> byte list \<Rightarrow> int" where
  "bytes_compare [] [] = 0"
| "bytes_compare [] (y # ys) = - 1"
| "bytes_compare (x # xs) [] = 1"
| "bytes_compare (x # xs) (y # ys) =
     (if x < y then - 1 else if y < x then 1 else bytes_compare xs ys)"

text \<open>
  \<^verbatim>\<open>search\<close> returns the match length and stores the position through \<^verbatim>\<open>pos\<close>; the
  model returns the pair \<open>(pos, len)\<close>. Go's \<^verbatim>\<open>/\<close> truncates.
\<close>

function search :: "int list \<Rightarrow> byte list \<Rightarrow> byte list \<Rightarrow> int \<Rightarrow> int \<Rightarrow> error + (int \<times> int)" where
  "search iii oldbin newbin st en =
     (let oldsize = int (length oldbin); newsize = int (length newbin) in
      if en - st < 2 then
        (case idx iii st of Inl e \<Rightarrow> Inl e | Inr ist \<Rightarrow>
         case slice_from oldbin ist of Inl e \<Rightarrow> Inl e | Inr o1 \<Rightarrow>
         case idx iii en of Inl e \<Rightarrow> Inl e | Inr ien \<Rightarrow>
         case slice_from oldbin ien of Inl e \<Rightarrow> Inl e | Inr o2 \<Rightarrow>
           let x = matchlen o1 newbin; y = matchlen o2 newbin in
           if x > y then Inr (ist, x) else Inr (ien, y))
      else
        (let x = st + (en - st) sdiv 2 in
         case idx iii x of Inl e \<Rightarrow> Inl e | Inr ix \<Rightarrow>
           let cmpln = min (oldsize - ix) newsize in
           case slice oldbin ix (ix + cmpln) of Inl e \<Rightarrow> Inl e | Inr a \<Rightarrow>
           case slice_to newbin cmpln of Inl e \<Rightarrow> Inl e | Inr b \<Rightarrow>
             if bytes_compare a b < 0 then search iii oldbin newbin x en
             else search iii oldbin newbin st x))"
  by pat_completeness auto
termination
proof (relation "measure (\<lambda>(iii, oldbin, newbin, st, en). nat (en - st))")
  show "wf (measure (\<lambda>(iii, oldbin, newbin, st, en). nat (en - st)))" by simp
next
  fix iii :: "int list" and oldbin newbin :: "byte list" and st en x :: int
  assume "\<not> en - st < 2" and x: "x = st + (en - st) sdiv 2"
  then have d: "2 \<le> en - st" by simp
  have "(en - st) sdiv 2 = (en - st) div 2"
    using d by (simp add: signed_divide_int_def sgn_if)
  then have "st < x \<and> x < en" using d x by (simp only:) presburger
  then show "((iii, oldbin, newbin, x, en), (iii, oldbin, newbin, st, en))
      \<in> measure (\<lambda>(iii, oldbin, newbin, st, en). nat (en - st))"
    and "((iii, oldbin, newbin, st, x), (iii, oldbin, newbin, st, en))
      \<in> measure (\<lambda>(iii, oldbin, newbin, st, en). nat (en - st))"
    by simp_all
qed

declare search.simps [simp del]

text \<open>
  What the suffix sorter is to deliver for a byte string \<open>S\<close>: an array of \<open>|S| + 1\<close>
  entries that is a permutation of \<open>0..|S|\<close> and lists the suffixes of \<open>S\<close> in
  non-decreasing order of \<^verbatim>\<open>bytes.Compare\<close>.
\<close>

definition suffix_array :: "byte list \<Rightarrow> int list \<Rightarrow> bool" where
  "suffix_array S I \<longleftrightarrow>
     mset I = mset (map int [0 ..< length S + 1]) \<and>
     sorted_wrt (\<lambda>a b. bytes_compare a b \<le> 0) (map (\<lambda>p. drop (nat p) S) I)"


section \<open>The patch applier\<close>

subsection \<open>The sink: util.BufWriter\<close>

text \<open>
  \<^verbatim>\<open>Bytes\<close> applies a patch to byte slices: the old file and the patch are
  \<^verbatim>\<open>bytes.Reader\<close>s and the sink is a \<^verbatim>\<open>util.BufWriter\<close>, whose slice \<^verbatim>\<open>buf\<close> is the
  state here. \<open>go_copy dst src\<close> is the built-in \<^verbatim>\<open>copy\<close>: it overwrites the first
  \<open>min |dst| |src|\<close> bytes of \<open>dst\<close>. \<^verbatim>\<open>WriteAt\<close> grows the slice with zeros up to
  \<^verbatim>\<open>minCap\<close> when that exceeds its length, then copies into \<^verbatim>\<open>m.buf[off:]\<close>, which
  panics when \<^verbatim>\<open>off\<close> is negative or beyond the length. It returns no error.
  Memory is taken to be unbounded.
\<close>

definition go_copy :: "'a list \<Rightarrow> 'a list \<Rightarrow> 'a list" where
  "go_copy dst src = take (length dst) src @ drop (length src) dst"

definition WriteAt :: "byte list \<Rightarrow> byte list \<Rightarrow> int \<Rightarrow> error + byte list" where
  "WriteAt mbuf p off =
     (let minCap = w64 (off + int (length p));
          mbuf = (if minCap > int (length mbuf)
                  then go_copy (replicate (nat minCap) 0) mbuf else mbuf)
      in case slice_from mbuf off of
           Inl e \<Rightarrow> Inl e
         | Inr dst \<Rightarrow> Inr (take (nat off) mbuf @ go_copy dst p))"

subsection \<open>Readers\<close>

text \<open>
  The bzip2 decoder is an external library. A decoder opened on a byte string is
  modelled by what \<^verbatim>\<open>io.ReadFull\<close> can observe of it: the bytes it will deliver
  (\<open>rd_data\<close>) and whether the stream then ends with \<^verbatim>\<open>io.EOF\<close> (\<open>rd_clean\<close>) or with
  another error. The decoding function \<open>unbz\<close>, from the compressed bytes to that
  pair, is a parameter of the applier.

  \<^verbatim>\<open>io.ReadFull(r, b)\<close> with \<open>n = |b|\<close>: with at least \<open>n\<close> bytes left it fills \<open>b\<close>
  and returns no error (also for \<open>n = 0\<close>); with no byte left on a clean stream it
  returns \<^verbatim>\<open>io.EOF\<close> and leaves \<open>b\<close> alone; otherwise it returns
  \<^verbatim>\<open>io.ErrUnexpectedEOF\<close> or the decoder's error. \<^verbatim>\<open>patchb\<close> tests
  \<^verbatim>\<open>err != nil && err != io.EOF\<close>, so it carries on after \<open>ReadEOF\<close> with the old
  contents of the buffer, and returns after \<open>ReadErr\<close>.
\<close>

record bzreader =
  rd_data :: "byte list"
  rd_clean :: bool

datatype read_result = ReadOk "byte list" bzreader | ReadEOF | ReadErr

definition read_full :: "bzreader \<Rightarrow> nat \<Rightarrow> read_result" where
  "read_full r n =
     (if n \<le> length (rd_data r)
      then ReadOk (take n (rd_data r)) (r\<lparr>rd_data := drop n (rd_data r)\<rparr>)
      else if rd_data r = [] \<and> rd_clean r then ReadEOF
      else ReadErr)"

text \<open>
  \<^verbatim>\<open>io.NewSectionReader(patch, off, n)\<close> over a \<^verbatim>\<open>bytes.Reader\<close> delivers the bytes of
  \<open>patch\<close> from \<open>off\<close>, at most \<open>n\<close> of them, then \<^verbatim>\<open>io.EOF\<close>. With a negative \<open>off\<close>
  (the sum \<^verbatim>\<open>32+bzctrllen\<close> can wrap) and \<open>n > 0\<close> every read fails with
  \<^verbatim>\<open>negative offset\<close>: \<open>None\<close>. A decoder over such a source delivers nothing and
  reports the failure.
\<close>

definition section_reader :: "byte list \<Rightarrow> int \<Rightarrow> int \<Rightarrow> byte list option" where
  "section_reader patch off n =
     (if n \<le> 0 then Some []
      else if off < 0 then None
      else Some (take (nat n) (drop (nat off) patch)))"

definition bz_open :: "(byte list \<Rightarrow> byte list \<times> bool) \<Rightarrow> byte list option \<Rightarrow> bzreader" where
  "bz_open unbz src =
     (case src of
        None \<Rightarrow> \<lparr>rd_data = [], rd_clean = False\<rparr>
      | Some bs \<Rightarrow> \<lparr>rd_data = fst (unbz bs), rd_clean = snd (unbz bs)\<rparr>)"

text \<open>
  \<^verbatim>\<open>oldfile.ReadAt(b, off)\<close> on a \<^verbatim>\<open>bytes.Reader\<close> returns the number of bytes copied:
  none for a negative offset or one at or past the end. \<^verbatim>\<open>patchb\<close> drops the error.
\<close>

definition ReadAt_n :: "byte list \<Rightarrow> nat \<Rightarrow> int \<Rightarrow> nat" where
  "ReadAt_n oldfile blen off =
     (if off < 0 \<or> off \<ge> int (length oldfile) then 0
      else min blen (length oldfile - nat off))"

subsection \<open>patchb\<close>

definition readBufSize :: int where
  "readBufSize = 64 * 1024"

definition magic :: "byte list" where
  "magic = [0x42, 0x53, 0x44, 0x49, 0x46, 0x46, 0x34, 0x30]"

text \<open>
  The variables of \<^verbatim>\<open>patchb\<close> that live across loop iterations. \<open>res\<close> is the sink's
  slice; \<open>buf8\<close> is the 8-byte control buffer \<^verbatim>\<open>buf\<close>; \<open>readBuf\<close> and \<open>readBufPatch\<close> are the two
  64 KiB arrays.
\<close>

record pstate =
  newpos :: int
  oldpos :: int
  cpfbz2 :: bzreader
  dpfbz2 :: bzreader
  epfbz2 :: bzreader
  buf8 :: "byte list"
  readBuf :: "byte list"
  readBufPatch :: "byte list"
  res :: "byte list"

text \<open>One pass of the control loop \<^verbatim>\<open>for i = 0; i <= 2; i++\<close>: read 8 bytes, decode.\<close>

definition read_ctrl :: "pstate \<Rightarrow> error + (int \<times> pstate)" where
  "read_ctrl s =
     (case read_full (cpfbz2 s) 8 of
        ReadErr \<Rightarrow> Inl CorruptCtrlStream
      | ReadEOF \<Rightarrow>
          (case offtin (buf8 s) of Inl e \<Rightarrow> Inl e | Inr v \<Rightarrow> Inr (v, s))
      | ReadOk d r \<Rightarrow>
          (case offtin d of Inl e \<Rightarrow> Inl e
           | Inr v \<Rightarrow> Inr (v, s\<lparr>buf8 := d, cpfbz2 := r\<rparr>)))"

text \<open>
  The body of the diff loop for one chunk: cut \<^verbatim>\<open>readBufPatch[:readSize]\<close>, fill it
  from the diff stream, read \<open>n\<close> bytes of the old file into \<^verbatim>\<open>readBuf\<close>, add them
  byte-wise onto the first \<open>n\<close> bytes of \<^verbatim>\<open>readBufPatch\<close>, write the chunk to the sink
  at \<open>newpos\<close>, advance both cursors.
\<close>

definition add_bytes :: "nat \<Rightarrow> byte list \<Rightarrow> byte list \<Rightarrow> byte list" where
  "add_bytes n patch old = map2 (+) (take n patch) (take n old) @ drop n patch"

definition diff_chunk :: "byte list \<Rightarrow> int \<Rightarrow> pstate \<Rightarrow> error + pstate" where
  "diff_chunk oldfile readSize s =
     (case slice_to (readBufPatch s) readSize of
        Inl e \<Rightarrow> Inl e
      | Inr _ \<Rightarrow>
     (case read_full (dpfbz2 s) (nat readSize) of
        ReadErr \<Rightarrow> Inl CorruptDiffStream
      | rr \<Rightarrow>
          let s = (case rr of
                     ReadOk d r \<Rightarrow> s\<lparr>readBufPatch := go_copy (readBufPatch s) d, dpfbz2 := r\<rparr>
                   | _ \<Rightarrow> s);
              n = ReadAt_n oldfile (nat readSize) (oldpos s);
              s = s\<lparr>readBuf := go_copy (readBuf s) (take n (drop (nat (oldpos s)) oldfile))\<rparr>;
              s = s\<lparr>readBufPatch := add_bytes n (readBufPatch s) (readBuf s)\<rparr>
          in case WriteAt (res s) (take (nat readSize) (readBufPatch s)) (newpos s) of
               Inl e \<Rightarrow> Inl e
             | Inr m \<Rightarrow>
                 Inr (s\<lparr>res := m,
                        newpos := w64 (newpos s + readSize),
                        oldpos := w64 (oldpos s + readSize)\<rparr>)))"

text \<open>
  \<^verbatim>\<open>for i = 0; i < ctrl[0]; i += readBufSize\<close>. A wrapped \<open>i\<close> makes the next
  \<^verbatim>\<open>readSize\<close> negative and the slice expression panic, which is why the loop ends.
\<close>

definition chunk_size :: "int \<Rightarrow> int \<Rightarrow> int" where
  "chunk_size c i = (let readSize = w64 (c - i) in
                     if readSize > readBufSize then readBufSize else readSize)"

function diff_loop :: "byte list \<Rightarrow> int \<Rightarrow> int \<Rightarrow> pstate \<Rightarrow> error + pstate" where
  "diff_loop oldfile c i s =
     (if i < c then
        (case diff_chunk oldfile (chunk_size c i) s of
           Inl e \<Rightarrow> Inl e
         | Inr s' \<Rightarrow> diff_loop oldfile c (w64 (i + readBufSize)) s')
      else Inr s)"
  by pat_completeness auto

termination
proof (relation "measure (\<lambda>(oldfile, c, i, s).
          if i < c \<and> 0 \<le> w64 (c - i) then 1 + nat (w64 (c - i)) else 0)")
  show "wf (measure (\<lambda>(oldfile, c, i, s).
          if i < c \<and> 0 \<le> w64 (c - i) then 1 + nat (w64 (c - i)) else 0))"
    by simp
next
  fix oldfile :: "byte list" and c i :: int and s s' :: pstate
  assume lt: "i < c" and ok: "diff_chunk oldfile (chunk_size c i) s = Inr s'"
  have "0 \<le> chunk_size c i"
    using ok by (auto simp: diff_chunk_def slice_to_def split: if_splits)
  then have r: "0 \<le> w64 (c - i)"
    by (auto simp: chunk_size_def Let_def readBufSize_def split: if_splits)
  have "w64 (c - w64 (i + readBufSize)) = w64 (w64 (c - i) - readBufSize)"
  proof -
    have "w64 (c - w64 (i + readBufSize)) = w64 (c - (i + readBufSize))"
      unfolding w64_def by (metis signed_take_bit_diff signed_take_bit_signed_take_bit min.idem)
    also have "\<dots> = w64 (w64 (c - i) - readBufSize)"
      unfolding w64_def
      by (metis diff_diff_eq signed_take_bit_diff signed_take_bit_signed_take_bit min.idem)
    finally show ?thesis .
  qed
  moreover have "w64 (c - i) < 2 ^ 63"
    unfolding w64_def by (rule signed_take_bit_int_less_exp)
  ultimately have e: "w64 (c - w64 (i + readBufSize)) = w64 (c - i) - readBufSize"
    using r by (simp add: w64_def readBufSize_def signed_take_bit_int_eq_self)
  show "((oldfile, c, w64 (i + readBufSize), s'), (oldfile, c, i, s))
      \<in> measure (\<lambda>(oldfile, c, i, s).
          if i < c \<and> 0 \<le> w64 (c - i) then 1 + nat (w64 (c - i)) else 0)"
    using lt r e by (simp add: readBufSize_def)
qed

declare diff_loop.simps [simp del]

text \<open>The body of the extra loop for one chunk: fill \<^verbatim>\<open>readBuf[:readSize]\<close> from the
  extra stream, write it to the sink at \<open>newpos\<close>, advance both cursors.\<close>

definition extra_chunk :: "int \<Rightarrow> pstate \<Rightarrow> error + pstate" where
  "extra_chunk readSize s =
     (case slice_to (readBuf s) readSize of
        Inl e \<Rightarrow> Inl e
      | Inr _ \<Rightarrow>
     (case read_full (epfbz2 s) (nat readSize) of
        ReadErr \<Rightarrow> Inl CorruptExtraStream
      | rr \<Rightarrow>
          let s = (case rr of
                     ReadOk d r \<Rightarrow> s\<lparr>readBuf := go_copy (readBuf s) d, epfbz2 := r\<rparr>
                   | _ \<Rightarrow> s)
          in case WriteAt (res s) (take (nat readSize) (readBuf s)) (newpos s) of
               Inl e \<Rightarrow> Inl e
             | Inr m \<Rightarrow>
                 Inr (s\<lparr>res := m,
                        newpos := w64 (newpos s + readSize),
                        oldpos := w64 (oldpos s + readSize)\<rparr>)))"

text \<open>\<^verbatim>\<open>for i = 0; i < ctrl[1]; i += readBufSize\<close>.\<close>

function extra_loop :: "int \<Rightarrow> int \<Rightarrow> pstate \<Rightarrow> error + pstate" where
  "extra_loop c i s =
     (if i < c then
        (case extra_chunk (chunk_size c i) s of
           Inl e \<Rightarrow> Inl e
         | Inr s' \<Rightarrow> extra_loop c (w64 (i + readBufSize)) s')
      else Inr s)"
  by pat_completeness auto
termination
proof (relation "measure (\<lambda>(c, i, s).
          if i < c \<and> 0 \<le> w64 (c - i) then 1 + nat (w64 (c - i)) else 0)")
  show "wf (measure (\<lambda>(c, i, s).
          if i < c \<and> 0 \<le> w64 (c - i) then 1 + nat (w64 (c - i)) else 0))"
    by simp
next
  fix c i :: int and s s' :: pstate
  assume lt: "i < c" and ok: "extra_chunk (chunk_size c i) s = Inr s'"
  have "0 \<le> chunk_size c i"
    using ok by (auto simp: extra_chunk_def slice_to_def split: if_splits)
  then have r: "0 \<le> w64 (c - i)"
    by (auto simp: chunk_size_def Let_def readBufSize_def split: if_splits)
  have "w64 (c - w64 (i + readBufSize)) = w64 (w64 (c - i) - readBufSize)"
  proof -
    have "w64 (c - w64 (i + readBufSize)) = w64 (c - (i + readBufSize))"
      unfolding w64_def by (metis signed_take_bit_diff signed_take_bit_signed_take_bit min.idem)
    also have "\<dots> = w64 (w64 (c - i) - readBufSize)"
      unfolding w64_def
      by (metis diff_diff_eq signed_take_bit_diff signed_take_bit_signed_take_bit min.idem)
    finally show ?thesis .
  qed
  moreover have "w64 (c - i) < 2 ^ 63"
    unfolding w64_def by (rule signed_take_bit_int_less_exp)
  ultimately have e: "w64 (c - w64 (i + readBufSize)) = w64 (c - i) - readBufSize"
    using r by (simp add: w64_def readBufSize_def signed_take_bit_int_eq_self)
  show "((c, w64 (i + readBufSize), s'), (c, i, s))
      \<in> measure (\<lambda>(c, i, s).
          if i < c \<and> 0 \<le> w64 (c - i) then 1 + nat (w64 (c - i)) else 0)"
    using lt r e by (simp add: readBufSize_def)
qed

declare extra_loop.simps [simp del]

text \<open>The loop \<^verbatim>\<open>for i = 0; i <= 2; i++\<close> that fills \<^verbatim>\<open>ctrl\<close>.\<close>

definition read_triple :: "pstate \<Rightarrow> error + ((int \<times> int \<times> int) \<times> pstate)" where
  "read_triple s =
     (case read_ctrl s of Inl e \<Rightarrow> Inl e | Inr (c0, s) \<Rightarrow>
      case read_ctrl s of Inl e \<Rightarrow> Inl e | Inr (c1, s) \<Rightarrow>
      case read_ctrl s of Inl e \<Rightarrow> Inl e | Inr (c2, s) \<Rightarrow>
        Inr ((c0, c1, c2), s))"

text \<open>
  One iteration of \<^verbatim>\<open>for newpos < newsize\<close>: read the triple \<^verbatim>\<open>ctrl[0..2]\<close>, check,
  run the diff phase, check, run the extra phase, adjust \<open>oldpos\<close> by
  \<^verbatim>\<open>ctrl[2] - ctrl[1]\<close>. The sums are Go's 64-bit sums.
\<close>

definition patch_iter :: "byte list \<Rightarrow> int \<Rightarrow> pstate \<Rightarrow> error + pstate" where
  "patch_iter oldfile newsize s =
     (case read_triple s of Inl e \<Rightarrow> Inl e | Inr ((c0, c1, c2), s) \<Rightarrow>
        if w64 (newpos s + c0) > newsize then Inl CorruptSanityDiff
        else
          case diff_loop oldfile c0 0 s of Inl e \<Rightarrow> Inl e | Inr s \<Rightarrow>
            if w64 (newpos s + c1) > newsize then Inl CorruptSanityExtra
            else
              case extra_loop c1 0 s of Inl e \<Rightarrow> Inl e | Inr s \<Rightarrow>
                Inr (s\<lparr>oldpos := w64 (oldpos s + w64 (c2 - c1))\<rparr>))"

text \<open>
  The loop \<^verbatim>\<open>for newpos < newsize\<close> need not end: a control stream at its end keeps
  delivering the triple left in \<^verbatim>\<open>buf\<close>. \<open>None\<close> is the run that does not return.
\<close>

partial_function (option) patch_loop :: "byte list \<Rightarrow> int \<Rightarrow> pstate \<Rightarrow> (error + pstate) option" where
  "patch_loop oldfile newsize s =
     (if newpos s < newsize then
        (case patch_iter oldfile newsize s of
           Inl e \<Rightarrow> Some (Inl e)
         | Inr s' \<Rightarrow> patch_loop oldfile newsize s')
      else Some (Inr s))"

declare patch_loop.simps [code]

text \<open>
  \<^verbatim>\<open>patchb\<close> as \<^verbatim>\<open>Bytes\<close> calls it, followed by \<^verbatim>\<open>buf.Bytes()\<close>. The header read fails
  exactly when the patch has fewer than 32 bytes. The three \<^verbatim>\<open>Close\<close> calls at the
  end return the error a decoder has met, and a decoder that met one has already
  made \<^verbatim>\<open>patchb\<close> return; they change nothing here.
\<close>

definition patch_init :: "bzreader \<Rightarrow> bzreader \<Rightarrow> bzreader \<Rightarrow> byte list \<Rightarrow> pstate" where
  "patch_init c d e m =
     \<lparr>newpos = 0, oldpos = 0, cpfbz2 = c, dpfbz2 = d, epfbz2 = e,
      buf8 = replicate 8 0,
      readBuf = replicate (nat readBufSize) 0,
      readBufPatch = replicate (nat readBufSize) 0,
      res = m\<rparr>"

definition patchb :: "(byte list \<Rightarrow> byte list \<times> bool) \<Rightarrow> byte list \<Rightarrow> byte list \<Rightarrow> (error + byte list) option" where
  "patchb unbz oldfile patch =
     (if length patch < 32 then Some (Inl CorruptHeader)
      else
        let header = take 32 patch in
        if bytes_compare (take 8 header) magic \<noteq> 0 then Some (Inl CorruptMagic)
        else
          case offtin (drop 8 header) of Inl e \<Rightarrow> Some (Inl e) | Inr bzctrllen \<Rightarrow>
          case offtin (drop 16 header) of Inl e \<Rightarrow> Some (Inl e) | Inr bzdatalen \<Rightarrow>
          case offtin (drop 24 header) of Inl e \<Rightarrow> Some (Inl e) | Inr newsize \<Rightarrow>
            if bzctrllen < 0 \<or> bzdatalen < 0 \<or> newsize < 0 then Some (Inl CorruptLengths)
            else
              let c = bz_open unbz (section_reader patch 32 bzctrllen);
                  d = bz_open unbz (section_reader patch (w64 (32 + bzctrllen)) bzdatalen);
                  e = bz_open unbz
                        (section_reader patch (w64 (w64 (32 + bzctrllen) + bzdatalen)) (2 ^ 31))
              in case WriteAt [] [0] (w64 (newsize - 1)) of
                   Inl e \<Rightarrow> Some (Inl e)
                 | Inr m \<Rightarrow>
                     (case patch_loop oldfile newsize (patch_init c d e m) of
                        None \<Rightarrow> None
                      | Some (Inl e) \<Rightarrow> Some (Inl e)
                      | Some (Inr s) \<Rightarrow> Some (Inr (res s))))"

text \<open>
  For stating what the diff phase writes: the byte of the old file at offset \<open>p\<close>,
  zero outside the file.
\<close>

definition old_byte :: "byte list \<Rightarrow> int \<Rightarrow> byte" where
  "old_byte oldfile p = (if 0 \<le> p \<and> p < int (length oldfile) then oldfile ! nat p else 0)"

text \<open>The two scratch arrays have their declared size of \<open>readBufSize\<close> bytes.\<close>

definition bufs_ok :: "pstate \<Rightarrow> bool" where
  "bufs_ok s \<longleftrightarrow>
     length (readBuf s) = nat readBufSize \<and> length (readBufPatch s) = nat readBufSize"

section \<open>Properties of the integer codec\<close>

lemma smod_nonneg: "0 \<le> (y::int) \<Longrightarrow> y smod 256 = y mod 256"
  by (cases "y = 0") (simp_all add: signed_modulo_int_def)

lemma sdiv_nonneg: "0 \<le> (y::int) \<Longrightarrow> y sdiv 256 = y div 256"
  by (cases "y = 0") (simp_all add: signed_divide_int_def)

lemma uint_byte_mod: "uint (word_of_int (y mod 256) :: byte) = y mod 256"
  by (simp add: uint_word_of_int)

lemma w64_id: "is_int64 k \<Longrightarrow> w64 k = k"
  by (simp add: w64_def is_int64_def signed_take_bit_int_eq_self)

lemma step_nonneg: 
  assumes "0 \<le> y" "y < 2^63" 
  shows "offt_step y = (word_of_int (y mod 256), y div 256)"
proof -
  have a: "0 \<le> y - y mod 256" by (simp add: zmod_le_nonneg_dividend assms)
  have b: "y - y mod 256 < 2^63" using assms
    by (smt (verit) pos_mod_sign)
  have c: "(y - y mod 256) div 256 = y div 256" 
    by (simp add: minus_mod_eq_mult_div)
  show ?thesis using a b c
    by (simp add: offt_step_def Let_def smod_nonneg[OF assms(1)] uint_byte_mod w64_id is_int64_def sdiv_nonneg)
qed

lemma div256_bound:
  assumes "0 \<le> (y::int)" "y < 256 * B"
  shows "0 \<le> y div 256 \<and> y div 256 < B"
proof -
  have e: "y = 256 * (y div 256) + y mod 256" by simp
  have p: "0 \<le> y mod 256" by simp
  show ?thesis using e p assms by linarith
qed



lemma m7: "(0x7f::byte) = mask 7" by (simp add: mask_eq_exp_minus_1)

lemma b128: "bit (128::byte) n \<longleftrightarrow> n = 7"
  using bit_exp_iff[where 'a=byte, of 7 n] by auto

lemma b127: "bit (127::byte) n \<longleftrightarrow> n < 7"
  using bit_mask_iff[where 'a=byte, of 7 n] by (auto simp: mask_eq_exp_minus_1)

lemma b128i: "bit (128::int) n \<longleftrightarrow> n = 7"
  using bit_exp_iff[where 'a=int, of 7 n] by auto

lemma b127i: "bit (127::int) n \<longleftrightarrow> n < 7"
  using bit_mask_iff[where 'a=int, of 7 n] by (auto simp: mask_eq_exp_minus_1)

lemma low7:
  assumes "0 \<le> v" "v < 128"
  shows "uint ((word_of_int v :: byte) AND 0x7f) = v"
proof -
  have "uint ((word_of_int v :: byte) AND mask 7) = take_bit 7 (take_bit 8 v)"
    by (simp add: uint_word_of_int_eq unsigned_take_bit_eq flip: take_bit_eq_mask) 
  also have "\<dots> = v" using assms by (simp add: take_bit_int_eq_self)
  finally show ?thesis by (simp only: m7)
qed

lemma sign_clear:
  assumes "0 \<le> v" "v < 128"
  shows "(word_of_int v :: byte) AND 0x80 = 0"
proof -
  have t: "take_bit 7 v = v" using assms by (simp add: take_bit_int_eq_self)
  have "\<not> bit v 7" using t by (metis bit_take_bit_iff less_irrefl)
  then show ?thesis 
    by (intro bit_word_eqI) (auto simp: bit_simps b128 b128i)
qed

lemma or_low7: "((w::byte) OR 0x80) AND 0x7f = w AND 0x7f"
  by (intro bit_word_eqI) (auto simp: bit_simps b128 b127 b128i b127i)

lemma or_sign: "((w::byte) OR 0x80) AND 0x80 \<noteq> 0"
proof -
  have "bit ((w OR 0x80) AND 0x80) 7" by (simp add: bit_simps b128)
  then show ?thesis by force
qed

lemma offt_step_bound:
  assumes "0 \<le> y" "y < 256 * B" "256 * B \<le> 2 ^ 63"
  shows "offt_step y = (word_of_int (y mod 256), y div 256) \<and> 0 \<le> y div 256 \<and> y div 256 < B"
  using step_nonneg[of y] div256_bound[of y B] assms by simp

lemma glue: "(y::int) div 256 * 256 + y mod 256 = y" by simp


lemma offtin_bytes:
  "offtin [b0, b1, b2, b3, b4, b5, b6, b7] =
     Inr (let y = ((((((uint (b7 AND 0x7f) * 256 + uint b6) * 256 + uint b5) * 256 + uint b4) * 256
              + uint b3) * 256 + uint b2) * 256 + uint b1) * 256 + uint b0
          in if b7 AND 0x80 \<noteq> 0 then - y else y)"
  by (simp add: offtin_def Let_def)

lemma offtin_offtout_bytes:
  assumes "- (2 ^ 63) < n" "n < 2 ^ 63"
  shows "offtin (offtout_bytes n) = Inr n"
proof -
  define m where "m = \<bar>n\<bar>"
  have m: "0 \<le> m" "m < 256 * 2 ^ 55" using assms by (simp_all add: m_def)
  have y0: "(if n < 0 then w64 (- n) else n) = m"
    using assms by (simp add: m_def w64_id is_int64_def)
  define y1 where "y1 = m div 256"
  define y2 where "y2 = y1 div 256"
  define y3 where "y3 = y2 div 256"
  define y4 where "y4 = y3 div 256"
  define y5 where "y5 = y4 div 256"
  define y6 where "y6 = y5 div 256"
  define v7 where "v7 = y6 div 256"
  have s0: "offt_step m = (word_of_int (m mod 256), y1) \<and> 0 \<le> y1 \<and> y1 < 256 * 2 ^ 47"
    unfolding y1_def using m by (intro offt_step_bound) simp_all
  have s1: "offt_step y1 = (word_of_int (y1 mod 256), y2) \<and> 0 \<le> y2 \<and> y2 < 256 * 2 ^ 39"
    unfolding y2_def using s0 by (intro offt_step_bound) simp_all
  have s2: "offt_step y2 = (word_of_int (y2 mod 256), y3) \<and> 0 \<le> y3 \<and> y3 < 256 * 2 ^ 31"
    unfolding y3_def using s1 by (intro offt_step_bound) simp_all
  have s3: "offt_step y3 = (word_of_int (y3 mod 256), y4) \<and> 0 \<le> y4 \<and> y4 < 256 * 2 ^ 23"
    unfolding y4_def using s2 by (intro offt_step_bound) simp_all
  have s4: "offt_step y4 = (word_of_int (y4 mod 256), y5) \<and> 0 \<le> y5 \<and> y5 < 256 * 2 ^ 15"
    unfolding y5_def using s3 by (intro offt_step_bound) simp_all
  have s5: "offt_step y5 = (word_of_int (y5 mod 256), y6) \<and> 0 \<le> y6 \<and> y6 < 256 * 2 ^ 7"
    unfolding y6_def using s4 by (intro offt_step_bound) simp_all
  have s6: "offt_step y6 = (word_of_int (y6 mod 256), v7) \<and> 0 \<le> v7 \<and> v7 < 2 ^ 7"
    unfolding v7_def using s5 by (intro offt_step_bound) simp_all
  have v: "0 \<le> v7" "v7 < 128" using s6 by simp_all
  have v7: "v7 smod 256 = v7" using v by (simp add: smod_nonneg)
  define b7 :: byte where "b7 = (if n < 0 then word_of_int v7 OR 0x80 else word_of_int v7)"
  have bytes: "offtout_bytes n = [word_of_int (m mod 256), word_of_int (y1 mod 256),
      word_of_int (y2 mod 256), word_of_int (y3 mod 256), word_of_int (y4 mod 256),
      word_of_int (y5 mod 256), word_of_int (y6 mod 256), b7]"
    unfolding offtout_bytes_def y0 Let_def b7_def
    by (simp only: conjunct1[OF s0] conjunct1[OF s1] conjunct1[OF s2] conjunct1[OF s3]
          conjunct1[OF s4] conjunct1[OF s5] conjunct1[OF s6] v7 prod.case)
  have lo: "uint (b7 AND 0x7f) = v7"
    unfolding b7_def by (simp add: or_low7 low7[OF v])
  have sg: "b7 AND 0x80 \<noteq> 0 \<longleftrightarrow> n < 0"
    unfolding b7_def by (simp add: or_sign sign_clear[OF v])
  have e6: "v7 * 256 + y6 mod 256 = y6" unfolding v7_def by (rule glue)
  have e5: "y6 * 256 + y5 mod 256 = y5" unfolding y6_def by (rule glue)
  have e4: "y5 * 256 + y4 mod 256 = y4" unfolding y5_def by (rule glue)
  have e3: "y4 * 256 + y3 mod 256 = y3" unfolding y4_def by (rule glue)
  have e2: "y3 * 256 + y2 mod 256 = y2" unfolding y3_def by (rule glue)
  have e1: "y2 * 256 + y1 mod 256 = y1" unfolding y2_def by (rule glue)
  have e0: "y1 * 256 + m mod 256 = m" unfolding y1_def by (rule glue)
  have "offtin (offtout_bytes n) = Inr (if n < 0 then - m else m)"
    unfolding bytes offtin_bytes Let_def
    by (simp only: lo sg uint_byte_mod e6 e5 e4 e3 e2 e1 e0)
  then show ?thesis by (simp add: m_def)
qed

lemma offtin_append:
  "length xs = 8 \<Longrightarrow> offtin (xs @ ys) = offtin xs"
  by (simp add: offtin_def nth_append)

lemma length_offtout_bytes: "length (offtout_bytes x) = 8"
  by (simp add: offtout_bytes_def Let_def split: prod.splits)

text \<open>
  Claim C4. Every integer \<open>n\<close> whose magnitude fits in 63 bits survives the codec:
  \<^verbatim>\<open>offtout\<close> into any slice of at least eight bytes succeeds, and \<^verbatim>\<open>offtin\<close> of the
  written slice returns \<open>n\<close>. The encoding of zero has the sign bit clear, and both
  that form and the form with the sign bit set and magnitude zero decode to 0.
\<close>

theorem offtin_offtout_roundtrip:
  assumes "- (2 ^ 63) < n" and "n < 2 ^ 63" and "8 \<le> length buf"
  shows "(\<exists>out. offtout n buf = Inr out \<and> offtin out = Inr n)
       \<and> offtout_bytes 0 = [0, 0, 0, 0, 0, 0, 0, 0]
       \<and> offtin [0, 0, 0, 0, 0, 0, 0, 0] = Inr 0
       \<and> offtin [0, 0, 0, 0, 0, 0, 0, 0x80] = Inr 0"
proof -
  have a: "offtout n buf = Inr (offtout_bytes n @ drop 8 buf)"
    using assms(3) by (simp add: offtout_def)
  have b: "offtin (offtout_bytes n @ drop 8 buf) = Inr n"
    by (simp only: offtin_append[OF length_offtout_bytes] offtin_offtout_bytes[OF assms(1,2)])
  have z: "offtout_bytes 0 = [0, 0, 0, 0, 0, 0, 0, 0]"
    by (simp add: offtout_bytes_def offt_step_def w64_def Let_def)
  have p: "offtin [0, 0, 0, 0, 0, 0, 0, 0] = Inr 0"
    by (simp add: offtin_bytes)
  have q: "offtin [0, 0, 0, 0, 0, 0, 0, 0x80] = Inr 0"
    by (simp add: offtin_bytes)
  show ?thesis using a b z p q by simp
qed

theorem offtin_offtout_roundtrip_witness:
  "- (2 ^ 63) < (- 300 :: int) \<and> (- 300 :: int) < 2 ^ 63
   \<and> 8 \<le> length [1, 2, 3, 4, 5, 6, 7, 8, 9 :: byte]
   \<and> (\<exists>out. offtout (- 300) [1, 2, 3, 4, 5, 6, 7, 8, 9] = Inr out \<and> offtin out = Inr (- 300))"
  using offtin_offtout_roundtrip [of "- 300" "[1, 2, 3, 4, 5, 6, 7, 8, 9]"] by simp

section \<open>Properties of the searcher\<close>

lemma matchlen_loop_lcp:
  "i \<le> length xs \<Longrightarrow> i \<le> length ys \<Longrightarrow>
   matchlen_loop xs ys i = i + length (longest_common_prefix (drop i xs) (drop i ys))"
proof (induction xs ys i rule: matchlen_loop.induct)
  case (1 oldbin newbin i)
  show ?case
  proof (cases "i < length oldbin \<and> i < length newbin")
    case True
    then have d: "drop i oldbin = oldbin ! i # drop (Suc i) oldbin"
      "drop i newbin = newbin ! i # drop (Suc i) newbin"
      by (simp_all add: Cons_nth_drop_Suc)
    show ?thesis
    proof (cases "oldbin ! i = newbin ! i")
      case eq: True
      have "matchlen_loop oldbin newbin i = matchlen_loop oldbin newbin (i + 1)"
        using True eq by (subst matchlen_loop.simps) simp
      also have "\<dots> = (i + 1) + length (longest_common_prefix (drop (i + 1) oldbin) (drop (i + 1) newbin))"
        using True eq by (intro "1.IH") simp_all
      finally show ?thesis using eq by (simp add: d)
    next
      case False
      then show ?thesis using True by (subst matchlen_loop.simps) (simp add: d)
    qed
  next
    case False
    then have "drop i oldbin = [] \<or> drop i newbin = []" using 1 by auto
    then have "longest_common_prefix (drop i oldbin) (drop i newbin) = []" by auto
    moreover have "matchlen_loop oldbin newbin i = i"
      using False by (subst matchlen_loop.simps) auto
    ultimately show ?thesis by simp
  qed
qed

lemma matchlen_lcp: "matchlen xs ys = int (length (longest_common_prefix xs ys))"
  by (simp add: matchlen_def matchlen_loop_lcp)

lemma search_result:
  assumes len: "length I = length old + 1"
    and rng: "\<forall>p \<in> set I. 0 \<le> p \<and> p \<le> int (length old)"
    and "0 \<le> st" "st \<le> en" "en \<le> int (length old)"
  shows "\<exists>pos. search I old q st en = Inr (pos, matchlen (drop (nat pos) old) q)
           \<and> 0 \<le> pos \<and> pos \<le> int (length old)"
  using assms(3-5)
proof (induction "nat (en - st)" arbitrary: st en rule: less_induct)
  case less
  have ix: "\<And>k. 0 \<le> k \<Longrightarrow> k \<le> int (length old) \<Longrightarrow>
      idx I k = Inr (I ! nat k) \<and> 0 \<le> I ! nat k \<and> I ! nat k \<le> int (length old)"
    using len rng by (simp add: idx_def)
  show ?case
  proof (cases "en - st < 2")
    case True
    have a: "idx I st = Inr (I ! nat st)" "0 \<le> I ! nat st" "I ! nat st \<le> int (length old)"
      using ix[of st] less.prems by simp_all
    have b: "idx I en = Inr (I ! nat en)" "0 \<le> I ! nat en" "I ! nat en \<le> int (length old)"
      using ix[of en] less.prems by simp_all
    show ?thesis using True a b
      by (subst search.simps) (simp add: slice_from_def Let_def)
  next
    case False
    define x where "x = st + (en - st) sdiv 2"
    have "(en - st) sdiv 2 = (en - st) div 2"
      using False by (simp add: signed_divide_int_def sgn_if)
    then have x: "st < x \<and> x < en" using False unfolding x_def by (simp only:) presburger
    have c: "idx I x = Inr (I ! nat x)" "0 \<le> I ! nat x" "I ! nat x \<le> int (length old)"
      using ix[of x] x less.prems by simp_all
    define cmpln where "cmpln = min (int (length old) - I ! nat x) (int (length q))"
    have cm: "0 \<le> cmpln" "I ! nat x + cmpln \<le> int (length old)" "cmpln \<le> int (length q)"
      using c by (simp_all add: cmpln_def)
    have s1: "slice old (I ! nat x) (I ! nat x + cmpln)
         = Inr (take (nat cmpln) (drop (nat (I ! nat x)) old))"
      using c cm by (simp add: slice_def)
    have s2: "slice_to q cmpln = Inr (take (nat cmpln) q)"
      using cm by (simp add: slice_to_def)
    have unf: "search I old q st en =
        (if bytes_compare (take (nat cmpln) (drop (nat (I ! nat x)) old)) (take (nat cmpln) q) < 0
         then search I old q x en else search I old q st x)"
      using False c s1 s2
      by (subst search.simps) (simp add: Let_def x_def[symmetric] cmpln_def[symmetric])
    have r1: "\<exists>pos. search I old q x en = Inr (pos, matchlen (drop (nat pos) old) q)
           \<and> 0 \<le> pos \<and> pos \<le> int (length old)"
      using x less.prems by (intro less.hyps) simp_all
    have r2: "\<exists>pos. search I old q st x = Inr (pos, matchlen (drop (nat pos) old) q)
           \<and> 0 \<le> pos \<and> pos \<le> int (length old)"
      using x less.prems by (intro less.hyps) simp_all
    show ?thesis using r1 r2 by (simp add: unf)
  qed
qed

lemma lcp_first_byte:
  assumes "q = [] \<or> hd q \<notin> set old"
  shows "longest_common_prefix (drop k old) q = []"
proof (cases "drop k old")
  case Nil then show ?thesis by simp
next
  case (Cons a as)
  then have "a \<in> set old" by (metis in_set_dropD list.set_intros(1))
  then show ?thesis using assms Cons by (cases q) auto
qed

lemma suffix_array_valid:
  assumes "suffix_array old I"
  shows "length I = length old + 1 \<and> (\<forall>p \<in> set I. 0 \<le> p \<and> p \<le> int (length old))"
proof -
  have m: "mset I = mset (map int [0 ..< length old + 1])" using assms by (simp add: suffix_array_def)
  have "length I = length (map int [0 ..< length old + 1])" using m by (metis size_mset)
  moreover have "set I = set (map int [0 ..< length old + 1])" using m by (metis set_mset_mset)
  ultimately show ?thesis by auto
qed

text \<open>
  Claim C6. For a byte string \<open>old\<close> with a sorted suffix array \<open>I\<close> and any query
  \<open>q\<close>, \<^verbatim>\<open>search(I, old, q, 0, |old|)\<close> returns (without panic) a position \<open>pos\<close>
  inside \<open>old\<close> and a length \<open>len\<close> that is exactly the length of the longest common
  prefix of \<open>q\<close> and the suffix \<open>old[pos..]\<close>; \<open>len\<close> is 0 when \<open>q\<close> is empty or its
  first byte occurs nowhere in \<open>old\<close>, that is, when no suffix of \<open>old\<close> shares its
  first byte with \<open>q\<close>.
\<close>

theorem search_exact_lcp:
  assumes "suffix_array old I"
  shows "\<exists>pos len. search I old q 0 (int (length old)) = Inr (pos, len)
           \<and> 0 \<le> pos \<and> pos \<le> int (length old)
           \<and> len = int (length (longest_common_prefix (drop (nat pos) old) q))
           \<and> (q = [] \<or> hd q \<notin> set old \<longrightarrow> len = 0)"
proof -
  note v = suffix_array_valid[OF assms]
  obtain pos where p: "search I old q 0 (int (length old)) = Inr (pos, matchlen (drop (nat pos) old) q)"
     "0 \<le> pos" "pos \<le> int (length old)"
    using search_result[of I old 0 "int (length old)" q] v by auto
  show ?thesis using p by (auto simp: matchlen_lcp lcp_first_byte)
qed

theorem search_exact_lcp_witness:
  "suffix_array [97, 98, 99, 97, 98] [5, 3, 0, 4, 1, 2]
   \<and> (\<exists>pos len. search [5, 3, 0, 4, 1, 2] [97, 98, 99, 97, 98] [98, 99, 100] 0 (int (length [97, 98, 99, 97, 98 :: byte])) = Inr (pos, len)
           \<and> 0 \<le> pos \<and> pos \<le> int (length [97, 98, 99, 97, 98 :: byte])
           \<and> len = int (length (longest_common_prefix (drop (nat pos) [97, 98, 99, 97, 98 :: byte]) [98, 99, 100]))
           \<and> ([98, 99, 100 :: byte] = [] \<or> hd [98, 99, 100] \<notin> set [97, 98, 99, 97, 98 :: byte] \<longrightarrow> len = 0))"
proof -
  have h: "suffix_array [97, 98, 99, 97, 98] [5, 3, 0, 4, 1, 2]"
    by (simp add: suffix_array_def upt_conv_Cons)
  show ?thesis using h search_exact_lcp[OF h, of "[98, 99, 100]"] by simp
qed


section \<open>Properties of the patch applier\<close>

lemma bytes_compare_eq_0: "bytes_compare a b = 0 \<longleftrightarrow> a = b"
  by (induction a b rule: bytes_compare.induct) auto

lemma offtin_take: "8 \<le> n \<Longrightarrow> offtin (take n xs) = offtin xs"
  by (auto simp: offtin_def Let_def)

lemma header_field:
  "32 \<le> length patch \<Longrightarrow> k \<le> 24 \<Longrightarrow> offtin (drop k (take 32 patch)) = offtin (drop k patch)"
  by (simp add: drop_take offtin_take)

lemma WriteAt_negative: "off < 0 \<Longrightarrow> WriteAt m p off = Inl Panic"
  by (simp add: WriteAt_def Let_def slice_from_def)

text \<open>
  Claim C8 says that a structurally valid patch whose header declares a new size of 0
  is applied successfully, writing nothing. In the code the pre-extension step is
  \<^verbatim>\<open>res.WriteAt([]byte{0}, int64(newsize-1))\<close>, and \<^verbatim>\<open>BufWriter.WriteAt\<close> slices
  \<^verbatim>\<open>m.buf[off:]\<close> with \<open>off = -1\<close>: every patch with a valid magic, non-negative block
  lengths and new size 0 makes \<^verbatim>\<open>patchb\<close> panic, whatever the decoder and the old
  file.
\<close>

theorem patchb_newsize_zero_panics:
  assumes "32 \<le> length patch" and "take 8 patch = magic"
    and "offtin (drop 8 patch) = Inr bzctrllen" and "0 \<le> bzctrllen"
    and "offtin (drop 16 patch) = Inr bzdatalen" and "0 \<le> bzdatalen"
    and "offtin (drop 24 patch) = Inr 0"
  shows "patchb unbz oldfile patch = Some (Inl Panic)"
proof -
  have m: "bytes_compare (take 8 patch) magic = 0"
    using assms(2) by (simp add: bytes_compare_eq_0)
  have w: "WriteAt [] [0] (w64 (0 - 1)) = Inl Panic"
    by (rule WriteAt_negative) (simp add: w64_def)
  show ?thesis
    unfolding patchb_def Let_def using assms(1,4,6) w
    by (simp add: m header_field assms(3,5,7))
qed

theorem patchb_newsize_zero_panics_witness:
  "32 \<le> length (magic @ replicate 24 0) \<and> take 8 (magic @ replicate 24 0) = magic
   \<and> offtin (drop 8 (magic @ replicate 24 0)) = Inr 0 \<and> (0::int) \<le> 0
   \<and> offtin (drop 16 (magic @ replicate 24 0)) = Inr 0
   \<and> offtin (drop 24 (magic @ replicate 24 0)) = Inr 0
   \<and> patchb (\<lambda>bs. (bs, True)) [] (magic @ replicate 24 0) = Some (Inl Panic)"
proof -
  have l: "length magic = 8" by (simp add: magic_def)
  have a: "32 \<le> length (magic @ replicate 24 0)" by (simp add: l)
  have b: "take 8 (magic @ replicate 24 0) = magic" by (simp add: l)
  have c: "offtin (drop 8 (magic @ replicate 24 0)) = Inr 0"
    by (simp add: l offtin_def)
  have d: "offtin (drop 16 (magic @ replicate 24 0)) = Inr 0"
    by (simp add: l offtin_def)
  have e: "offtin (drop 24 (magic @ replicate 24 0)) = Inr 0"
    by (simp add: l offtin_def)
  show ?thesis
    using patchb_newsize_zero_panics [OF a b c _ d _ e, of "\<lambda>bs. (bs, True)" "[]"] a b c d e
    by simp
qed

subsection \<open>Wrap-around and the chunk loops\<close>

lemma w64_add_left: "w64 (w64 a + b) = w64 (a + b)"
  unfolding w64_def by (metis signed_take_bit_add signed_take_bit_signed_take_bit min.idem)

lemma w64_add_right: "w64 (a + w64 b) = w64 (a + b)"
  unfolding w64_def by (metis signed_take_bit_add signed_take_bit_signed_take_bit min.idem)

lemma w64_diff_left: "w64 (w64 a - b) = w64 (a - b)"
  unfolding w64_def by (metis signed_take_bit_diff signed_take_bit_signed_take_bit min.idem)

lemma w64_diff_right: "w64 (a - w64 b) = w64 (a - b)"
  unfolding w64_def by (metis signed_take_bit_diff signed_take_bit_signed_take_bit min.idem)

lemma w64_range: "- (2 ^ 63) \<le> w64 a \<and> w64 a < 2 ^ 63"
  using signed_take_bit_int_less_exp[of 63 a] signed_take_bit_int_greater_eq_minus_exp[of 63 a]
  by (simp add: w64_def)

lemma w64_eq: "- (2 ^ 63) \<le> k \<Longrightarrow> k < 2 ^ 63 \<Longrightarrow> w64 k = k"
  by (simp add: w64_def signed_take_bit_int_eq_self)

lemma w64_wrap_high:
  assumes "2 ^ 63 \<le> k" "k < 2 ^ 64"
  shows "w64 k = k - 2 ^ 64"
proof -
  have "w64 k = w64 (k - 2 ^ 64)"
  proof -
    have "w64 (k - 2 ^ 64) = w64 (k - w64 (2 ^ 64))" by (simp only: w64_diff_right)
    also have "w64 (2 ^ 64) = 0" by (simp add: w64_def signed_take_bit_eq_take_bit_shift)
    finally show ?thesis by simp
  qed
  also have "\<dots> = k - 2 ^ 64" using assms by (intro w64_eq) simp_all
  finally show ?thesis .
qed


lemma readBufSize_val: "readBufSize = 65536"
  by (simp add: readBufSize_def)

lemma diff_chunk_Inr:
  assumes "diff_chunk oldfile r s = Inr s'"
  shows "0 \<le> r \<and> newpos s' = w64 (newpos s + r) \<and> oldpos s' = w64 (oldpos s + r)
         \<and> cpfbz2 s' = cpfbz2 s \<and> epfbz2 s' = epfbz2 s \<and> buf8 s' = buf8 s"
  using assms
  by (auto simp: diff_chunk_def slice_to_def Let_def split: if_splits sum.splits read_result.splits)

lemma diff_chunk_negative: "r < 0 \<Longrightarrow> diff_chunk oldfile r s = Inl Panic"
  by (simp add: diff_chunk_def slice_to_def)

lemma diff_loop_done: "c \<le> i \<Longrightarrow> diff_loop oldfile c i s = Inr s"
  by (subst diff_loop.simps) simp

lemma diff_loop_step:
  "i < c \<Longrightarrow> diff_loop oldfile c i s =
     (case diff_chunk oldfile (chunk_size c i) s of
        Inl e \<Rightarrow> Inl e
      | Inr s' \<Rightarrow> diff_loop oldfile c (w64 (i + readBufSize)) s')"
  by (subst diff_loop.simps) simp

lemma chunk_size_eq:
  assumes "0 \<le> i" "i < c" "c < 2 ^ 63"
  shows "chunk_size c i = min (c - i) readBufSize"
proof -
  have "w64 (c - i) = c - i" using assms by (intro w64_eq) simp_all
  then show ?thesis by (simp add: chunk_size_def Let_def)
qed

lemma chunk_size_wrapped:
  assumes "0 \<le> i" "i < c" "c < 2 ^ 63" "2 ^ 63 \<le> i + readBufSize"
  shows "chunk_size c (w64 (i + readBufSize)) < 0"
proof -
  have "w64 (c - w64 (i + readBufSize)) = w64 (c - i - readBufSize)"
    by (simp add: w64_diff_right diff_diff_eq)
  also have "\<dots> = c - i - readBufSize"
    using assms by (intro w64_eq) (simp_all add: readBufSize_def)
  finally show ?thesis using assms by (simp add: chunk_size_def Let_def readBufSize_def)
qed

lemma diff_loop_cursors:
  assumes "diff_loop oldfile c i s = Inr s'" "0 \<le> i" "i \<le> c" "c < 2 ^ 63"
    "is_int64 (newpos s)" "is_int64 (oldpos s)"
  shows "newpos s' = w64 (newpos s + (c - i)) \<and> oldpos s' = w64 (oldpos s + (c - i))
         \<and> cpfbz2 s' = cpfbz2 s \<and> epfbz2 s' = epfbz2 s \<and> buf8 s' = buf8 s"
  using assms
proof (induction oldfile c i s rule: diff_loop.induct)
  case (1 oldfile c i s)
  show ?case
  proof (cases "i < c")
    case False
    then have "i = c" using "1.prems" by simp
    then show ?thesis using "1.prems" by (simp add: diff_loop_done w64_eq is_int64_def)
  next
    case True
    obtain s1 where c1: "diff_chunk oldfile (chunk_size c i) s = Inr s1"
      and l1: "diff_loop oldfile c (w64 (i + readBufSize)) s1 = Inr s'"
      using "1.prems"(1) True by (auto simp: diff_loop_step split: sum.splits)
    note ch = diff_chunk_Inr[OF c1]
    have cs: "chunk_size c i = min (c - i) readBufSize"
      using True "1.prems" by (intro chunk_size_eq) simp_all
    have r1: "is_int64 (newpos s1)" "is_int64 (oldpos s1)"
      using ch w64_range by (simp_all add: is_int64_def)
    show ?thesis
    proof (cases "c - i > readBufSize")
      case big: True
      have i': "w64 (i + readBufSize) = i + readBufSize"
        using big "1.prems" by (intro w64_eq) (simp_all add: readBufSize_def)
      have ih: "newpos s' = w64 (newpos s1 + (c - w64 (i + readBufSize)))
          \<and> oldpos s' = w64 (oldpos s1 + (c - w64 (i + readBufSize)))
          \<and> cpfbz2 s' = cpfbz2 s1 \<and> epfbz2 s' = epfbz2 s1 \<and> buf8 s' = buf8 s1"
        using big "1.prems" r1 l1 i' by (intro "1.IH"[OF True c1]) (simp_all add: readBufSize_val)
      have r: "chunk_size c i = readBufSize" using cs big by simp
      have "newpos s' = w64 (w64 (newpos s + readBufSize) + (c - (i + readBufSize)))"
        using ih ch by (simp only: i' r)
      also have "\<dots> = w64 (newpos s + (c - i))"
        by (simp only: w64_add_left) simp
      finally have a: "newpos s' = w64 (newpos s + (c - i))" .
      have "oldpos s' = w64 (w64 (oldpos s + readBufSize) + (c - (i + readBufSize)))"
        using ih ch by (simp only: i' r)
      also have "\<dots> = w64 (oldpos s + (c - i))"
        by (simp only: w64_add_left) simp
      finally have b: "oldpos s' = w64 (oldpos s + (c - i))" .
      show ?thesis using a b ih ch by simp
    next
      case small: False
      show ?thesis
      proof (cases "i + readBufSize < 2 ^ 63")
        case True
        have i': "w64 (i + readBufSize) = i + readBufSize"
          using True "1.prems" by (intro w64_eq) (simp_all add: readBufSize_def)
        have "s' = s1" using l1 small by (simp add: i' diff_loop_done)
        then show ?thesis using ch cs small by simp
      next
        case False
        have n: "chunk_size c (w64 (i + readBufSize)) < 0"
          using \<open>i < c\<close> "1.prems" False by (intro chunk_size_wrapped) simp_all
        have "w64 (i + readBufSize) < 0"
          using False "1.prems" w64_wrap_high[of "i + readBufSize"] by (simp add: readBufSize_def)
        then have "w64 (i + readBufSize) < c" using \<open>i < c\<close> "1.prems" by simp
        then have "diff_loop oldfile c (w64 (i + readBufSize)) s1 = Inl Panic"
          by (simp add: diff_loop_step diff_chunk_negative[OF n])
        then show ?thesis using l1 by simp
      qed
    qed
  qed
qed


lemma extra_chunk_Inr:
  assumes "extra_chunk r s = Inr s'"
  shows "0 \<le> r \<and> newpos s' = w64 (newpos s + r) \<and> oldpos s' = w64 (oldpos s + r)
         \<and> cpfbz2 s' = cpfbz2 s \<and> dpfbz2 s' = dpfbz2 s \<and> buf8 s' = buf8 s"
  using assms
  by (auto simp: extra_chunk_def slice_to_def Let_def split: if_splits sum.splits read_result.splits)

lemma extra_chunk_negative: "r < 0 \<Longrightarrow> extra_chunk r s = Inl Panic"
  by (simp add: extra_chunk_def slice_to_def)

lemma extra_loop_done: "c \<le> i \<Longrightarrow> extra_loop c i s = Inr s"
  by (subst extra_loop.simps) simp

lemma extra_loop_step:
  "i < c \<Longrightarrow> extra_loop c i s =
     (case extra_chunk (chunk_size c i) s of
        Inl e \<Rightarrow> Inl e
      | Inr s' \<Rightarrow> extra_loop c (w64 (i + readBufSize)) s')"
  by (subst extra_loop.simps) simp

lemma extra_loop_cursors:
  assumes "extra_loop c i s = Inr s'" "0 \<le> i" "i \<le> c" "c < 2 ^ 63"
    "is_int64 (newpos s)" "is_int64 (oldpos s)"
  shows "newpos s' = w64 (newpos s + (c - i)) \<and> oldpos s' = w64 (oldpos s + (c - i))
         \<and> cpfbz2 s' = cpfbz2 s \<and> dpfbz2 s' = dpfbz2 s \<and> buf8 s' = buf8 s"
  using assms
proof (induction c i s rule: extra_loop.induct)
  case (1 c i s)
  show ?case
  proof (cases "i < c")
    case False
    then have "i = c" using "1.prems" by simp
    then show ?thesis using "1.prems" by (simp add: extra_loop_done w64_eq is_int64_def)
  next
    case True
    obtain s1 where c1: "extra_chunk (chunk_size c i) s = Inr s1"
      and l1: "extra_loop c (w64 (i + readBufSize)) s1 = Inr s'"
      using "1.prems"(1) True by (auto simp: extra_loop_step split: sum.splits)
    note ch = extra_chunk_Inr[OF c1]
    have cs: "chunk_size c i = min (c - i) readBufSize"
      using True "1.prems" by (intro chunk_size_eq) simp_all
    have r1: "is_int64 (newpos s1)" "is_int64 (oldpos s1)"
      using ch w64_range by (simp_all add: is_int64_def)
    show ?thesis
    proof (cases "c - i > readBufSize")
      case big: True
      have i': "w64 (i + readBufSize) = i + readBufSize"
        using big "1.prems" by (intro w64_eq) (simp_all add: readBufSize_def)
      have ih: "newpos s' = w64 (newpos s1 + (c - w64 (i + readBufSize)))
          \<and> oldpos s' = w64 (oldpos s1 + (c - w64 (i + readBufSize)))
          \<and> cpfbz2 s' = cpfbz2 s1 \<and> dpfbz2 s' = dpfbz2 s1 \<and> buf8 s' = buf8 s1"
        using big "1.prems" r1 l1 i' by (intro "1.IH"[OF True c1]) (simp_all add: readBufSize_val)
      have r: "chunk_size c i = readBufSize" using cs big by simp
      have "newpos s' = w64 (w64 (newpos s + readBufSize) + (c - (i + readBufSize)))"
        using ih ch by (simp only: i' r)
      also have "\<dots> = w64 (newpos s + (c - i))"
        by (simp only: w64_add_left) simp
      finally have a: "newpos s' = w64 (newpos s + (c - i))" .
      have "oldpos s' = w64 (w64 (oldpos s + readBufSize) + (c - (i + readBufSize)))"
        using ih ch by (simp only: i' r)
      also have "\<dots> = w64 (oldpos s + (c - i))"
        by (simp only: w64_add_left) simp
      finally have b: "oldpos s' = w64 (oldpos s + (c - i))" .
      show ?thesis using a b ih ch by simp
    next
      case small: False
      show ?thesis
      proof (cases "i + readBufSize < 2 ^ 63")
        case True
        have i': "w64 (i + readBufSize) = i + readBufSize"
          using True "1.prems" by (intro w64_eq) (simp_all add: readBufSize_def)
        have "s' = s1" using l1 small by (simp add: i' extra_loop_done)
        then show ?thesis using ch cs small by simp
      next
        case False
        have n: "chunk_size c (w64 (i + readBufSize)) < 0"
          using \<open>i < c\<close> "1.prems" False by (intro chunk_size_wrapped) simp_all
        have "w64 (i + readBufSize) < 0"
          using False "1.prems" w64_wrap_high[of "i + readBufSize"] by (simp add: readBufSize_def)
        then have "w64 (i + readBufSize) < c" using \<open>i < c\<close> "1.prems" by simp
        then have "extra_loop c (w64 (i + readBufSize)) s1 = Inl Panic"
          by (simp add: extra_loop_step extra_chunk_negative[OF n])
        then show ?thesis using l1 by simp
      qed
    qed
  qed
qed



lemma uint_byte_le: "uint (b::byte) \<le> 255"
  using uint_lt2p[of b] by simp

lemma uint_low7_le: "uint ((b::byte) AND 0x7f) \<le> 127"
proof -
  have "b AND 0x7f \<le> 0x7f" by (rule word_and_le1)
  then show ?thesis by (simp add: word_le_def)
qed

lemma offtin_range:
  assumes "offtin b = Inr v"
  shows "- (2 ^ 63) < v \<and> v < 2 ^ 63"
proof -
  define y where "y = ((((((uint (b ! 7 AND 0x7f) * 256 + uint (b ! 6)) * 256 + uint (b ! 5)) * 256
      + uint (b ! 4)) * 256 + uint (b ! 3)) * 256 + uint (b ! 2)) * 256 + uint (b ! 1)) * 256
      + uint (b ! 0)"
  have v: "v = y \<or> v = - y"
    using assms by (auto simp: offtin_def Let_def y_def split: if_splits)
  have "0 \<le> y" unfolding y_def by simp
  moreover have "y < 2 ^ 63"
    unfolding y_def
    using uint_low7_le[of "b ! 7"] uint_byte_le[of "b ! 6"] uint_byte_le[of "b ! 5"]
      uint_byte_le[of "b ! 4"] uint_byte_le[of "b ! 3"] uint_byte_le[of "b ! 2"]
      uint_byte_le[of "b ! 1"] uint_byte_le[of "b ! 0"]
    by simp
  ultimately show ?thesis using v by auto
qed

lemma read_ctrl_Inr:
  assumes "read_ctrl s = Inr (v, s')"
  shows "- (2 ^ 63) < v \<and> v < 2 ^ 63 \<and> newpos s' = newpos s \<and> oldpos s' = oldpos s
         \<and> res s' = res s \<and> dpfbz2 s' = dpfbz2 s \<and> epfbz2 s' = epfbz2 s
         \<and> readBuf s' = readBuf s \<and> readBufPatch s' = readBufPatch s"
  using assms offtin_range
  by (auto simp: read_ctrl_def split: read_result.splits sum.splits)

lemma read_triple_Inr:
  assumes "read_triple s = Inr ((x, y, z), s')"
  shows "- (2 ^ 63) < x \<and> x < 2 ^ 63 \<and> - (2 ^ 63) < y \<and> y < 2 ^ 63
         \<and> - (2 ^ 63) < z \<and> z < 2 ^ 63
         \<and> newpos s' = newpos s \<and> oldpos s' = oldpos s
         \<and> res s' = res s \<and> dpfbz2 s' = dpfbz2 s \<and> epfbz2 s' = epfbz2 s
         \<and> readBuf s' = readBuf s \<and> readBufPatch s' = readBufPatch s"
proof -
  obtain s1 s2 where a: "read_ctrl s = Inr (x, s1)" and b: "read_ctrl s1 = Inr (y, s2)"
    and c: "read_ctrl s2 = Inr (z, s')"
    using assms by (auto simp: read_triple_def split: sum.splits)
  show ?thesis using read_ctrl_Inr[OF a] read_ctrl_Inr[OF b] read_ctrl_Inr[OF c] by simp
qed

end
